theory Spec2Isabelle
  imports Complex_Main "HOL-Library.Log_Nat"
begin

section \<open>Python values, errors and containers\<close>

text \<open>
  The notebook \<^verbatim>\<open>auto3dseg/notebooks/hpo_nni.ipynb\<close> is a straight-line script. Each code
  cell is embedded as a function of the names the cell reads; calls into MONAI, torch and
  the operating system are opaque, so their outcome is a parameter and the fact that a call
  was made is recorded in a call log.

  A raise is a value: \<open>Inl e\<close>. \<open>BaseException\<close> stands for the exceptions that do not
  derive from Python's \<^verbatim>\<open>Exception\<close> class (\<^verbatim>\<open>KeyboardInterrupt\<close>, \<^verbatim>\<open>SystemExit\<close>),
  which a clause \<^verbatim>\<open>except Exception\<close> does not catch.
\<close>

datatype py_error =
    ZeroDivisionError
  | OverflowError
  | IndexError
  | KeyError
  | AssertionError
  | OtherException string
  | BaseException string

fun is_Exception :: "py_error \<Rightarrow> bool" where
  "is_Exception (BaseException _) = False"
| "is_Exception _ = True"

text \<open>The values a configuration dictionary can hold, with Python's truth value.\<close>

datatype py_value =
    PyNone
  | PyBool bool
  | PyInt int
  | PyStr string
  | PyList "py_value list"

fun truthy :: "py_value \<Rightarrow> bool" where
  "truthy PyNone = False"
| "truthy (PyBool b) = b"
| "truthy (PyInt n) = (n \<noteq> 0)"
| "truthy (PyStr s) = (s \<noteq> [])"
| "truthy (PyList vs) = (vs \<noteq> [])"

text \<open>\<^verbatim>\<open>xs[i]\<close> on a list: a negative index counts from the end, anything else out of
  range raises \<^verbatim>\<open>IndexError\<close>.\<close>

definition py_index :: "'a list \<Rightarrow> int \<Rightarrow> py_error + 'a" where
  "py_index xs i =
     (if 0 \<le> i \<and> i < int (length xs) then Inr (xs ! nat i)
      else if i < 0 \<and> 0 \<le> i + int (length xs) then Inr (xs ! nat (i + int (length xs)))
      else Inl IndexError)"

text \<open>A \<^verbatim>\<open>dict\<close> keeps its keys in insertion order: an association list.
  \<^verbatim>\<open>list(d.keys())\<close> and \<^verbatim>\<open>d[k]\<close>:\<close>

type_synonym ('k, 'v) py_dict = "('k \<times> 'v) list"

definition dict_keys :: "('k, 'v) py_dict \<Rightarrow> 'k list" where
  "dict_keys d = map fst d"

definition dict_getitem :: "('k, 'v) py_dict \<Rightarrow> 'k \<Rightarrow> py_error + 'v" where
  "dict_getitem d k = (case map_of d k of None \<Rightarrow> Inl KeyError | Some v \<Rightarrow> Inr v)"

section \<open>The outside world: files and calls into libraries\<close>

datatype call =
    Download_and_extract string string string
  | DataAnalyzer string string string
  | Get_all_case_stats
  | Get_history
  | Import_bundle_algo_history string

record world =
  files :: "string set"
  calls :: "call list"

text \<open>An opaque library call: from the files it finds, it raises or leaves new files.\<close>

type_synonym effect = "string set \<Rightarrow> py_error + string set"

definition invoke :: "call \<Rightarrow> effect \<Rightarrow> world \<Rightarrow> (py_error + unit) \<times> world" where
  "invoke c eff w =
     (case eff (files w) of
        Inl e \<Rightarrow> (Inl e, w\<lparr>calls := calls w @ [c]\<rparr>)
      | Inr fs \<Rightarrow> (Inr (), \<lparr>files = fs, calls = calls w @ [c]\<rparr>))"

text \<open>\<^verbatim>\<open>os.path.join(a, b)\<close> for two components (POSIX).\<close>

definition os_path_join :: "string \<Rightarrow> string \<Rightarrow> string" where
  "os_path_join a b =
     (if b \<noteq> [] \<and> hd b = CHR ''/'' then b
      else if a = [] \<or> last a = CHR ''/'' then a @ b
      else a @ ''/'' @ b)"

section \<open>Cell "Download dataset"\<close>

definition msd_task :: string where
  "msd_task = ''Task04_Hippocampus''"

definition resource :: string where
  "resource = ''https://msd-for-monai.s3-us-west-2.amazonaws.com/'' @ msd_task @ ''.tar''"

definition compressed_file :: "string \<Rightarrow> string" where
  "compressed_file root_dir = os_path_join root_dir (msd_task @ ''.tar'')"

definition dataroot :: "string \<Rightarrow> string" where
  "dataroot root_dir = os_path_join root_dir msd_task"

text \<open>
  \<^verbatim>\<open>if not os.path.exists(dataroot):
      download_and_extract(resource, compressed_file, root_dir)\<close>
\<close>

definition provision_dataset :: "effect \<Rightarrow> string \<Rightarrow> world \<Rightarrow> (py_error + unit) \<times> world" where
  "provision_dataset download root_dir w =
     (if dataroot root_dir \<notin> files w
      then invoke (Download_and_extract resource (compressed_file root_dir) root_dir) download w
      else (Inr (), w))"

section \<open>Cell "Create Bundle Generators": the statistics step\<close>

definition work_dir :: string where
  "work_dir = os_path_join ''./'' ''hpo_nni_work_dir''"

definition datastats_file :: string where
  "datastats_file = os_path_join work_dir ''datastats.yaml''"

text \<open>
  \<^verbatim>\<open>if not os.path.exists(datastats_file):
      da = DataAnalyzer(datalist_file, dataroot, output_path=datastats_file)
      da.get_all_case_stats()\<close>

  The constructor and the method are two calls; when the constructor raises, the method is
  not reached.
\<close>

definition data_stats_step ::
  "string \<Rightarrow> string \<Rightarrow> effect \<Rightarrow> effect \<Rightarrow> world \<Rightarrow> (py_error + unit) \<times> world" where
  "data_stats_step datalist_file data_root da_init da_run w =
     (if datastats_file \<notin> files w
      then (case invoke (DataAnalyzer datalist_file data_root datastats_file) da_init w of
              (Inl e, w1) \<Rightarrow> (Inl e, w1)
            | (Inr u, w1) \<Rightarrow> invoke Get_all_case_stats da_run w1)
      else (Inr (), w))"

section \<open>Cell 6: history and algorithm selection\<close>

text \<open>
  \<^verbatim>\<open>try:
      history = bundle_generator.get_history()
      assert len(history) > 0
  except Exception:
      history = import_bundle_algo_history(work_dir, only_trained=False)\<close>

  \<open>get_history\<close> is what the call to the generator gives, \<open>import_history\<close> what the
  import from disk would give. The second component is the list of calls made.
\<close>

definition try_get_history :: "(py_error + 'h list) \<Rightarrow> py_error + 'h list" where
  "try_get_history get_history =
     (case get_history of
        Inl e \<Rightarrow> Inl e
      | Inr history \<Rightarrow> if 0 < length history then Inr history else Inl AssertionError)"

definition load_history ::
  "(py_error + 'h list) \<Rightarrow> (py_error + 'h list) \<Rightarrow> (py_error + 'h list) \<times> call list" where
  "load_history get_history import_history =
     (case try_get_history get_history of
        Inr history \<Rightarrow> (Inr history, [Get_history])
      | Inl e \<Rightarrow>
          if is_Exception e
          then (import_history, [Get_history, Import_bundle_algo_history work_dir])
          else (Inl e, [Get_history]))"

text \<open>
  \<^verbatim>\<open>algo_dict = history[selected_algorithm_index]
  algo_name = list(algo_dict.keys())[selected_algorithm_index]
  algo = algo_dict[algo_name]\<close>
\<close>

definition select_algo ::
  "(string, 'a) py_dict list \<Rightarrow> int \<Rightarrow> py_error + ((string, 'a) py_dict \<times> string \<times> 'a)" where
  "select_algo history selected_algorithm_index =
     (case py_index history selected_algorithm_index of
        Inl e \<Rightarrow> Inl e
      | Inr algo_dict \<Rightarrow>
          (case py_index (dict_keys algo_dict) selected_algorithm_index of
             Inl e \<Rightarrow> Inl e
           | Inr algo_name \<Rightarrow>
               (case dict_getitem algo_dict algo_name of
                  Inl e \<Rightarrow> Inl e
                | Inr algo \<Rightarrow> Inr (algo_dict, algo_name, algo))))"

section \<open>Cell 6, second part: the override parameters\<close>

subsection \<open>Python floats\<close>

text \<open>
  \<^verbatim>\<open>/\<close> is true division: its result is a float (IEEE 754 binary64), and \<^verbatim>\<open>int\<close>
  truncates a float towards zero. A finite float is modelled by its value, a rational
  number; \<open>to_double\<close> rounds a rational to the nearest binary64 value, ties to even:
  53 significant bits, and no exponent below that of the subnormal numbers.
\<close>

definition ilog2 :: "rat \<Rightarrow> int" where
  \<comment> \<open>\<open>\<lfloor>log\<^sub>2 x\<rfloor>\<close> for \<open>0 < x\<close>\<close>
  "ilog2 x =
     (if 1 \<le> x then int (floorlog 2 (nat \<lfloor>x\<rfloor>)) - 1
      else - int (floorlog 2 (nat (\<lceil>1 / x\<rceil> - 1))))"

definition round_half_even :: "rat \<Rightarrow> int" where
  "round_half_even x =
     (let f = \<lfloor>x\<rfloor>; r = x - of_int f
      in if r < 1 / 2 then f
         else if 1 / 2 < r then f + 1
         else if even f then f else f + 1)"

definition ulp_exponent :: "rat \<Rightarrow> int" where
  \<comment> \<open>for \<open>0 < x\<close>: neighbouring floats around \<open>x\<close> are \<open>2 powi ulp_exponent x\<close> apart\<close>
  "ulp_exponent x = max (ilog2 x - 52) (- 1074)"

definition round_pos :: "rat \<Rightarrow> rat" where
  "round_pos x =
     of_int (round_half_even (x / 2 powi ulp_exponent x)) * 2 powi ulp_exponent x"

definition to_double :: "rat \<Rightarrow> rat" where
  "to_double x = (if x = 0 then 0 else if 0 < x then round_pos x else - round_pos (- x))"

definition too_large :: "rat \<Rightarrow> bool" where
  \<comment> \<open>the rounded value is beyond the largest finite binary64 number\<close>
  "too_large x \<longleftrightarrow> 2 ^ 1024 \<le> \<bar>x\<bar>"

text \<open>\<^verbatim>\<open>a / b\<close> for two \<^verbatim>\<open>int\<close>s: the correctly rounded quotient; it raises on a zero
  divisor and when the result does not fit a float.\<close>

definition int_truediv :: "int \<Rightarrow> int \<Rightarrow> py_error + rat" where
  "int_truediv a b =
     (if b = 0 then Inl ZeroDivisionError
      else let q = to_double (of_int a / of_int b)
           in if too_large q then Inl OverflowError else Inr q)"

text \<open>\<^verbatim>\<open>x / b\<close> for a float and an \<^verbatim>\<open>int\<close>: the \<^verbatim>\<open>int\<close> is converted to a float first
  (which raises when it is too large), then a zero divisor raises. The divisor is
  an integer, so the quotient is no larger than \<open>x\<close> and fits.\<close>

definition float_div_int :: "rat \<Rightarrow> int \<Rightarrow> py_error + rat" where
  "float_div_int x b =
     (let d = to_double (of_int b)
      in if too_large d then Inl OverflowError
         else if d = 0 then Inl ZeroDivisionError
         else Inr (to_double (x / d)))"

text \<open>\<^verbatim>\<open>int(x)\<close> for a finite float: truncation towards zero.\<close>

definition py_int :: "rat \<Rightarrow> int" where
  "py_int x = (if 0 \<le> x then \<lfloor>x\<rfloor> else \<lceil>x\<rceil>)"

subsection \<open>The cell\<close>

record override_param =
  num_iterations :: int
  num_iterations_per_validation :: int
  num_images_per_batch :: int
  num_epochs :: int
  num_warmup_iterations :: int

text \<open>
  \<^verbatim>\<open>num_gpus = 1 if "multigpu" in input_cfg and not input_cfg["multigpu"]
             else torch.cuda.device_count()\<close>
\<close>

definition num_gpus :: "(string \<rightharpoonup> py_value) \<Rightarrow> int \<Rightarrow> int" where
  "num_gpus input_cfg device_count =
     (case input_cfg ''multigpu'' of
        Some v \<Rightarrow> if \<not> truthy v then 1 else device_count
      | None \<Rightarrow> device_count)"

text \<open>
  From \<^verbatim>\<open>num_epoch = max_epochs\<close> on. The notebook writes the batch size 2 and the number
  of images 24 as literals; they are parameters here.

  \<^verbatim>\<open>n_iter = int(num_epoch * n_data / num_images_per_batch / num_gpus)
  n_iter_val = int(n_iter / 2)\<close>
\<close>

definition n_iter :: "int \<Rightarrow> int \<Rightarrow> int \<Rightarrow> int \<Rightarrow> py_error + int" where
  "n_iter num_epoch images_per_batch n_data gpus =
     (case int_truediv (num_epoch * n_data) images_per_batch of
        Inl e \<Rightarrow> Inl e
      | Inr q \<Rightarrow>
          (case float_div_int q gpus of
             Inl e \<Rightarrow> Inl e
           | Inr r \<Rightarrow> Inr (py_int r)))"

definition n_iter_val :: "int \<Rightarrow> py_error + int" where
  "n_iter_val n = (case int_truediv n 2 of Inl e \<Rightarrow> Inl e | Inr h \<Rightarrow> Inr (py_int h))"

definition override_from :: "int \<Rightarrow> int \<Rightarrow> int \<Rightarrow> int \<Rightarrow> py_error + override_param" where
  "override_from num_epoch images_per_batch n_data gpus =
     (case n_iter num_epoch images_per_batch n_data gpus of
        Inl e \<Rightarrow> Inl e
      | Inr n \<Rightarrow>
          (case n_iter_val n of
             Inl e \<Rightarrow> Inl e
           | Inr v \<Rightarrow>
               Inr \<lparr>num_iterations = n,
                    num_iterations_per_validation = v,
                    num_images_per_batch = images_per_batch,
                    num_epochs = num_epoch,
                    num_warmup_iterations = v\<rparr>))"


text \<open>The dictionary of the cell "Prepare an input yaml"; it has no key \<^verbatim>\<open>multigpu\<close>.\<close>

definition notebook_input_cfg :: "string \<Rightarrow> string \<Rightarrow> (string \<rightharpoonup> py_value)" where
  "notebook_input_cfg datalist_file data_root =
     map_of [(''name'', PyStr msd_task),
             (''task'', PyStr ''segmentation''),
             (''modality'', PyStr ''MRI''),
             (''datalist'', PyStr datalist_file),
             (''dataroot'', PyStr data_root)]"

section \<open>Concrete inputs\<close>

definition example_history :: "(string, nat) py_dict list" where
  "example_history =
     [ [(''segresnet2d_0'', 10), (''segresnet_0'', 11)],
       [(''dints_0'', 20), (''swinunetr_0'', 21)] ]"

definition single_key_history :: "(string, nat) py_dict list" where
  "single_key_history =
     [ [(''segresnet2d_0'', 10)], [(''dints_0'', 20)], [(''swinunetr_0'', 30)] ]"

definition empty_world :: world where
  "empty_world = \<lparr>files = {}, calls = []\<rparr>"

definition stats_world :: world where
  "stats_world = \<lparr>files = {datastats_file}, calls = []\<rparr>"

definition data_world :: world where
  "data_world = \<lparr>files = {dataroot ''/data''}, calls = []\<rparr>"

definition writes :: "string \<Rightarrow> effect" where
  "writes path fs = Inr (insert path fs)"

definition fails :: "py_error \<Rightarrow> effect" where
  "fails e fs = Inl e"


section \<open>The formula as the specification writes it\<close>

text \<open>
  The specification gives the iteration count as a floor of exact quotients, and the
  validation interval as the floor of half of it. These two definitions follow its words,
  over the rationals; they are compared with what the cell computes.
\<close>

definition iteration_count :: "int \<Rightarrow> int \<Rightarrow> int \<Rightarrow> int \<Rightarrow> int" where
  "iteration_count epoch_count total_images images_per_batch gpu_count =
     \<lfloor>(of_int epoch_count * of_int total_images / of_int images_per_batch / of_int gpu_count :: rat)\<rfloor>"

definition validation_interval :: "int \<Rightarrow> int" where
  "validation_interval iterations = \<lfloor>(of_int iterations / 2 :: rat)\<rfloor>"

section \<open>Dataset provisioning\<close>

lemma invoke_calls: "calls (snd (invoke c eff w)) = calls w @ [c]"
  by (simp add: invoke_def split: sum.splits)

text \<open>
  Claim C9. When the expected dataset path exists, provisioning does nothing: no call is
  made and the world (files and call log) is returned as it was. When the path is absent,
  \<^verbatim>\<open>download_and_extract\<close> is called, once, with the resource, the archive path and the
  root directory.
\<close>

theorem provision_dataset_noop:
  "(dataroot root_dir \<in> files w \<longrightarrow> provision_dataset download root_dir w = (Inr (), w)) \<and>
   (dataroot root_dir \<notin> files w \<longrightarrow>
      calls (snd (provision_dataset download root_dir w))
        = calls w @ [Download_and_extract resource (compressed_file root_dir) root_dir])"
  by (simp add: provision_dataset_def invoke_calls)

theorem provision_dataset_noop_witness:
  "dataroot ''/data'' \<in> files data_world \<and>
   provision_dataset (writes (dataroot ''/data'')) ''/data'' data_world = (Inr (), data_world) \<and>
   dataroot ''/data'' \<notin> files empty_world \<and>
   calls (snd (provision_dataset (writes (dataroot ''/data'')) ''/data'' empty_world))
     = [Download_and_extract resource (compressed_file ''/data'') ''/data'']"
proof -
  have present: "dataroot ''/data'' \<in> files data_world"
    by (simp add: data_world_def)
  have absent: "dataroot ''/data'' \<notin> files empty_world"
    by (simp add: empty_world_def)
  have log: "calls empty_world = []"
    by (simp add: empty_world_def)
  from provision_dataset_noop [of "''/data''" data_world "writes (dataroot ''/data'')"] present
  have kept: "provision_dataset (writes (dataroot ''/data'')) ''/data'' data_world = (Inr (), data_world)"
    by (simp only: simp_thms)
  from provision_dataset_noop [of "''/data''" empty_world "writes (dataroot ''/data'')"] absent
  have "calls (snd (provision_dataset (writes (dataroot ''/data'')) ''/data'' empty_world))
          = calls empty_world @ [Download_and_extract resource (compressed_file ''/data'') ''/data'']"
    by (simp only: simp_thms)
  with log present absent kept show ?thesis
    by (simp only: append_Nil simp_thms)
qed

section \<open>The statistics step\<close>

text \<open>
  Claim C7. When the statistics file exists, the step does nothing: the analyzer is not
  constructed and not run, and the world is unchanged. When the file is absent, the
  analyzer is constructed exactly once and, when the constructor returns, run exactly
  once on the files the constructor left: the step then gives what the run gives, its
  files or its error. When the constructor raises, that error is the outcome, the files
  are untouched and the run is not reached. Nothing but the presence of the file is
  looked at.
\<close>

theorem data_stats_step_once:
  "(datastats_file \<in> files w \<longrightarrow>
      data_stats_step datalist_file data_root da_init da_run w = (Inr (), w)) \<and>
   (datastats_file \<notin> files w \<and> da_init (files w) = Inl e \<longrightarrow>
      data_stats_step datalist_file data_root da_init da_run w =
        (Inl e, \<lparr>files = files w,
                 calls = calls w @ [DataAnalyzer datalist_file data_root datastats_file]\<rparr>)) \<and>
   (datastats_file \<notin> files w \<and> da_init (files w) = Inr fs \<and> da_run fs = Inl e \<longrightarrow>
      data_stats_step datalist_file data_root da_init da_run w =
        (Inl e, \<lparr>files = fs,
                 calls = calls w @ [DataAnalyzer datalist_file data_root datastats_file,
                                    Get_all_case_stats]\<rparr>)) \<and>
   (datastats_file \<notin> files w \<and> da_init (files w) = Inr fs \<and> da_run fs = Inr fs' \<longrightarrow>
      data_stats_step datalist_file data_root da_init da_run w =
        (Inr (), \<lparr>files = fs',
                  calls = calls w @ [DataAnalyzer datalist_file data_root datastats_file,
                                     Get_all_case_stats]\<rparr>)) \<and>
   (datastats_file \<notin> files w \<longrightarrow>
      calls (snd (data_stats_step datalist_file data_root da_init da_run w))
        = calls w @ DataAnalyzer datalist_file data_root datastats_file #
            (case da_init (files w) of Inl e \<Rightarrow> [] | Inr fs \<Rightarrow> [Get_all_case_stats]))"
proof (intro conjI impI)
  assume "datastats_file \<in> files w"
  then show "data_stats_step datalist_file data_root da_init da_run w = (Inr (), w)"
    by (simp add: data_stats_step_def)
next
  assume "datastats_file \<notin> files w \<and> da_init (files w) = Inl e"
  then show "data_stats_step datalist_file data_root da_init da_run w =
        (Inl e, \<lparr>files = files w,
                 calls = calls w @ [DataAnalyzer datalist_file data_root datastats_file]\<rparr>)"
    by (simp add: data_stats_step_def invoke_def)
next
  assume "datastats_file \<notin> files w \<and> da_init (files w) = Inr fs \<and> da_run fs = Inl e"
  then show "data_stats_step datalist_file data_root da_init da_run w =
        (Inl e, \<lparr>files = fs,
                 calls = calls w @ [DataAnalyzer datalist_file data_root datastats_file,
                                    Get_all_case_stats]\<rparr>)"
    by (simp add: data_stats_step_def invoke_def)
next
  assume "datastats_file \<notin> files w \<and> da_init (files w) = Inr fs \<and> da_run fs = Inr fs'"
  then show "data_stats_step datalist_file data_root da_init da_run w =
        (Inr (), \<lparr>files = fs',
                  calls = calls w @ [DataAnalyzer datalist_file data_root datastats_file,
                                     Get_all_case_stats]\<rparr>)"
    by (simp add: data_stats_step_def invoke_def)
next
  assume "datastats_file \<notin> files w"
  then show "calls (snd (data_stats_step datalist_file data_root da_init da_run w))
        = calls w @ DataAnalyzer datalist_file data_root datastats_file #
            (case da_init (files w) of Inl e \<Rightarrow> [] | Inr fs \<Rightarrow> [Get_all_case_stats])"
    by (auto simp: data_stats_step_def invoke_def split: sum.splits prod.splits)
qed

theorem data_stats_step_once_witness:
  "data_stats_step ''folds.json'' ''/data'' (writes ''tmp'') (writes datastats_file) stats_world
     = (Inr (), stats_world) \<and>
   data_stats_step ''folds.json'' ''/data'' (writes ''tmp'') (writes datastats_file) empty_world
     = (Inr (), \<lparr>files = {datastats_file, ''tmp''},
                 calls = [DataAnalyzer ''folds.json'' ''/data'' datastats_file,
                          Get_all_case_stats]\<rparr>) \<and>
   data_stats_step ''folds.json'' ''/data'' (writes ''tmp'') (fails (OtherException ''ValueError''))
       empty_world
     = (Inl (OtherException ''ValueError''),
        \<lparr>files = {''tmp''},
         calls = [DataAnalyzer ''folds.json'' ''/data'' datastats_file, Get_all_case_stats]\<rparr>) \<and>
   data_stats_step ''folds.json'' ''/data'' (fails (OtherException ''ValueError''))
       (writes datastats_file) empty_world
     = (Inl (OtherException ''ValueError''),
        \<lparr>files = {}, calls = [DataAnalyzer ''folds.json'' ''/data'' datastats_file]\<rparr>)"
proof -
  let ?err = "OtherException ''ValueError''"
  have present: "datastats_file \<in> files stats_world"
    by (simp add: stats_world_def)
  have absent: "datastats_file \<notin> files empty_world"
    by (simp add: empty_world_def)
  have log: "calls empty_world = []" and fs: "files empty_world = {}"
    by (simp_all add: empty_world_def)
  have init: "writes ''tmp'' (files empty_world) = Inr {''tmp''}"
    by (simp add: writes_def fs)
  have run: "writes datastats_file {''tmp''} = Inr {datastats_file, ''tmp''}"
    by (simp add: writes_def)
  have init_fails: "fails ?err (files empty_world) = Inl ?err"
    by (simp add: fails_def)
  have run_fails: "fails ?err {''tmp''} = Inl ?err"
    by (simp add: fails_def)
  note skip = data_stats_step_once
    [where w = stats_world and datalist_file = "''folds.json''" and data_root = "''/data''"
       and da_init = "writes ''tmp''" and da_run = "writes datastats_file"
       and e = ?err and fs = "{}" and fs' = "{}", THEN conjunct1, THEN mp, OF present]
  note both = data_stats_step_once
    [where w = empty_world and datalist_file = "''folds.json''" and data_root = "''/data''"
       and da_init = "writes ''tmp''" and da_run = "writes datastats_file"
       and e = ?err and fs = "{''tmp''}" and fs' = "{datastats_file, ''tmp''}",
     THEN conjunct2, THEN conjunct2, THEN conjunct2, THEN conjunct1, THEN mp,
     OF conjI [OF absent conjI [OF init run]]]
  note late = data_stats_step_once
    [where w = empty_world and datalist_file = "''folds.json''" and data_root = "''/data''"
       and da_init = "writes ''tmp''" and da_run = "fails ?err"
       and e = ?err and fs = "{''tmp''}" and fs' = "{}",
     THEN conjunct2, THEN conjunct2, THEN conjunct1, THEN mp,
     OF conjI [OF absent conjI [OF init run_fails]]]
  note early = data_stats_step_once
    [where w = empty_world and datalist_file = "''folds.json''" and data_root = "''/data''"
       and da_init = "fails ?err" and da_run = "writes datastats_file"
       and e = ?err and fs = "{}" and fs' = "{}",
     THEN conjunct2, THEN conjunct1, THEN mp, OF conjI [OF absent init_fails]]
  from skip both late early show ?thesis
    by (simp only: log fs append_Nil simp_thms)
qed

section \<open>History and algorithm selection\<close>

lemma try_get_history_Inr:
  "try_get_history g = Inr h \<longleftrightarrow> g = Inr h \<and> h \<noteq> []"
  by (auto simp: try_get_history_def split: sum.splits if_splits)

lemma try_get_history_Inl:
  "try_get_history g = Inl e \<longleftrightarrow> g = Inl e \<or> (g = Inr [] \<and> e = AssertionError)"
  by (auto simp: try_get_history_def split: sum.splits if_splits)

text \<open>
  Claim C3. The import from disk is called exactly when reading the history in memory
  raises an exception (an instance of \<^verbatim>\<open>Exception\<close>, which is what the handler catches)
  or gives an empty list; the history is then what the import gives. A non-empty history
  in memory is used as it is, and no import is made.
\<close>

theorem history_fallback_iff:
  "(Import_bundle_algo_history work_dir \<in> set (snd (load_history get_history import_history))
      \<longleftrightarrow> (\<exists>e. get_history = Inl e \<and> is_Exception e) \<or> get_history = Inr []) \<and>
   (Import_bundle_algo_history work_dir \<in> set (snd (load_history get_history import_history))
      \<longrightarrow> fst (load_history get_history import_history) = import_history) \<and>
   (get_history = Inr history \<and> history \<noteq> []
      \<longrightarrow> load_history get_history import_history = (Inr history, [Get_history]))"
proof (cases "try_get_history get_history")
  case (Inl e)
  then have g: "get_history = Inl e \<or> (get_history = Inr [] \<and> e = AssertionError)"
    by (simp add: try_get_history_Inl)
  show ?thesis
  proof (cases "is_Exception e")
    case True
    with Inl g show ?thesis by (auto simp: load_history_def)
  next
    case False
    with g have "get_history = Inl e" by auto
    with Inl False show ?thesis by (auto simp: load_history_def)
  qed
next
  case (Inr h)
  then have "get_history = Inr h \<and> h \<noteq> []"
    by (simp add: try_get_history_Inr)
  with Inr show ?thesis by (auto simp: load_history_def)
qed

theorem history_fallback_iff_witness:
  "Import_bundle_algo_history work_dir
     \<in> set (snd (load_history (Inr []) (Inr single_key_history))) \<and>
   fst (load_history (Inr []) (Inr single_key_history)) = Inr single_key_history \<and>
   load_history (Inr example_history) (Inr single_key_history) = (Inr example_history, [Get_history])"
proof -
  have nonempty: "Inr example_history = (Inr example_history :: py_error + (string, nat) py_dict list)
                  \<and> example_history \<noteq> []"
    by (simp add: example_history_def)
  have empty: "(\<exists>e. (Inr [] :: py_error + (string, nat) py_dict list) = Inl e \<and> is_Exception e)
               \<or> (Inr [] :: py_error + (string, nat) py_dict list) = Inr []"
    by simp
  note a = history_fallback_iff [of "Inr []" "Inr single_key_history" "[]"]
  note b = history_fallback_iff [of "Inr example_history" "Inr single_key_history" example_history]
  from a empty
  have taken: "Import_bundle_algo_history work_dir
                 \<in> set (snd (load_history (Inr []) (Inr single_key_history)))"
    by (simp only: simp_thms)
  with a have "fst (load_history (Inr []) (Inr single_key_history)) = Inr single_key_history"
    by (simp only: simp_thms)
  moreover from b nonempty
  have "load_history (Inr example_history) (Inr single_key_history) = (Inr example_history, [Get_history])"
    by (simp only: simp_thms)
  ultimately show ?thesis using taken
    by (simp only: simp_thms)
qed

lemma dict_getitem_key:
  assumes "k \<in> set (dict_keys d)"
  obtains v where "dict_getitem d k = Inr v" and "map_of d k = Some v"
proof -
  from assms have "k \<in> dom (map_of d)"
    by (simp add: dict_keys_def dom_map_of_conv_image_fst)
  then obtain v where "map_of d k = Some v" by blast
  then show ?thesis by (simp add: dict_getitem_def that)
qed

lemma select_algo_in_range:
  assumes "0 \<le> i" and "i < int (length history)" and "i < int (length (history ! nat i))"
  obtains algo where
    "select_algo history i = Inr (history ! nat i, dict_keys (history ! nat i) ! nat i, algo)"
    and "map_of (history ! nat i) (dict_keys (history ! nat i) ! nat i) = Some algo"
proof -
  let ?d = "history ! nat i"
  let ?k = "dict_keys ?d ! nat i"
  from assms have h: "py_index history i = Inr ?d"
    by (simp add: py_index_def)
  from assms have k: "py_index (dict_keys ?d) i = Inr ?k"
    by (simp add: py_index_def dict_keys_def)
  from assms have "nat i < length (dict_keys ?d)"
    by (simp add: dict_keys_def nat_less_iff)
  then have "?k \<in> set (dict_keys ?d)"
    by (rule nth_mem)
  then obtain v where v: "dict_getitem ?d ?k = Inr v" "map_of ?d ?k = Some v"
    by (rule dict_getitem_key)
  from h k v have "select_algo history i = Inr (?d, ?k, v)"
    by (simp add: select_algo_def)
  then show ?thesis using v(2) by (rule that)
qed

text \<open>
  Claim C2. Selection at index \<open>i\<close> takes entry \<open>i\<close> of the history and then key \<open>i\<close> of
  that entry's keys, the same index for both, and the handle stored under that key. An
  index at or beyond the length of the history raises \<^verbatim>\<open>IndexError\<close>. Within both
  ranges the selection returns.
\<close>

theorem select_algo_same_index:
  "(int (length history) \<le> i \<longrightarrow> select_algo history i = Inl IndexError) \<and>
   (0 \<le> i \<and> i < int (length history) \<and> i < int (length (history ! nat i)) \<longrightarrow>
      (\<exists>algo. select_algo history i =
                 Inr (history ! nat i, dict_keys (history ! nat i) ! nat i, algo) \<and>
              map_of (history ! nat i) (dict_keys (history ! nat i) ! nat i) = Some algo)) \<and>
   (select_algo history i = Inr (algo_dict, algo_name, algo) \<longrightarrow>
      py_index history i = Inr algo_dict \<and>
      py_index (dict_keys algo_dict) i = Inr algo_name \<and>
      dict_getitem algo_dict algo_name = Inr algo)"
proof (intro conjI impI)
  assume "int (length history) \<le> i"
  then show "select_algo history i = Inl IndexError"
    by (simp add: select_algo_def py_index_def)
next
  assume a: "0 \<le> i \<and> i < int (length history) \<and> i < int (length (history ! nat i))"
  then obtain algo where
    "select_algo history i = Inr (history ! nat i, dict_keys (history ! nat i) ! nat i, algo)"
    and "map_of (history ! nat i) (dict_keys (history ! nat i) ! nat i) = Some algo"
    by (elim conjE) (rule select_algo_in_range)
  then show "\<exists>algo. select_algo history i =
                 Inr (history ! nat i, dict_keys (history ! nat i) ! nat i, algo) \<and>
              map_of (history ! nat i) (dict_keys (history ! nat i) ! nat i) = Some algo"
    by blast
next
  assume "select_algo history i = Inr (algo_dict, algo_name, algo)"
  then show "py_index history i = Inr algo_dict"
    by (auto simp: select_algo_def split: sum.splits)
next
  assume "select_algo history i = Inr (algo_dict, algo_name, algo)"
  then show "py_index (dict_keys algo_dict) i = Inr algo_name"
    by (auto simp: select_algo_def split: sum.splits)
next
  assume "select_algo history i = Inr (algo_dict, algo_name, algo)"
  then show "dict_getitem algo_dict algo_name = Inr algo"
    by (auto simp: select_algo_def split: sum.splits)
qed

theorem select_algo_same_index_witness:
  "select_algo example_history 1
     = Inr ([(''dints_0'', 20), (''swinunetr_0'', 21)], ''swinunetr_0'', 21) \<and>
   select_algo example_history 2 = Inl IndexError"
proof -
  have len: "int (length example_history) \<le> 2"
    by (simp add: example_history_def)
  have nth: "example_history ! nat 1 = [(''dints_0'', 20), (''swinunetr_0'', 21)]"
    by (simp add: example_history_def)
  have key: "dict_keys [(''dints_0'', 20::nat), (''swinunetr_0'', 21)] ! nat 1 = ''swinunetr_0''"
    by (simp add: dict_keys_def)
  have val: "map_of [(''dints_0'', 20::nat), (''swinunetr_0'', 21)] ''swinunetr_0'' = Some 21"
    by simp
  have rng: "(0::int) \<le> 1 \<and> 1 < int (length example_history) \<and>
             1 < int (length (example_history ! nat 1))"
    by (simp add: example_history_def)
  note far = select_algo_same_index [of example_history 2 "[]" "[]" 0, THEN conjunct1, THEN mp, OF len]
  note near = select_algo_same_index
                [of example_history 1 "[]" "[]" 0, THEN conjunct2, THEN conjunct1, THEN mp, OF rng]
  from near obtain algo where
    sel: "select_algo example_history 1
            = Inr ([(''dints_0'', 20), (''swinunetr_0'', 21)], ''swinunetr_0'', algo)"
    and look: "Some 21 = Some algo"
    unfolding nth key val by (elim exE conjE)
  from look have "algo = 21" by simp
  with sel far show ?thesis by (simp only: simp_thms)
qed

text \<open>
  Claim C10. When every entry of the history has exactly one name, every index \<open>i \<ge> 1\<close>
  raises \<^verbatim>\<open>IndexError\<close>; when \<open>i\<close> is within the history the entry is found and it is
  the lookup in the entry's keys that raises. Index 0 succeeds on a non-empty history.
\<close>

theorem select_algo_single_key:
  assumes single: "\<forall>d \<in> set history. length d = 1"
    and i: "1 \<le> i"
  shows "select_algo history i = Inl IndexError \<and>
         (i < int (length history) \<longrightarrow>
            py_index history i = Inr (history ! nat i) \<and>
            py_index (dict_keys (history ! nat i)) i = Inl IndexError) \<and>
         (history \<noteq> [] \<longrightarrow> (\<exists>r. select_algo history 0 = Inr r))"
proof (intro conjI impI)
  show "select_algo history i = Inl IndexError"
  proof (cases "i < int (length history)")
    case True
    with i have h: "py_index history i = Inr (history ! nat i)"
      by (simp add: py_index_def)
    from True i have "history ! nat i \<in> set history"
      by (simp add: nat_less_iff)
    with single have "length (history ! nat i) = 1" by (rule bspec)
    with i have "py_index (dict_keys (history ! nat i)) i = Inl IndexError"
      by (simp add: py_index_def dict_keys_def)
    with h show ?thesis by (simp add: select_algo_def)
  next
    case False
    with i show ?thesis by (simp add: select_algo_def py_index_def)
  qed
next
  assume len: "i < int (length history)"
  with i show "py_index history i = Inr (history ! nat i)"
    by (simp add: py_index_def)
next
  assume len: "i < int (length history)"
  with i have "history ! nat i \<in> set history"
    by (simp add: nat_less_iff)
  with single have "length (history ! nat i) = 1" by (rule bspec)
  with i show "py_index (dict_keys (history ! nat i)) i = Inl IndexError"
    by (simp add: py_index_def dict_keys_def)
next
  assume ne: "history \<noteq> []"
  then have "history ! nat 0 \<in> set history" by simp
  with single have "length (history ! nat 0) = 1" by (rule bspec)
  with ne have "(0::int) < int (length history)" and "(0::int) < int (length (history ! nat 0))"
    by simp_all
  with order_refl obtain algo where
    "select_algo history 0 = Inr (history ! nat 0, dict_keys (history ! nat 0) ! nat 0, algo)"
    by (rule select_algo_in_range)
  then show "\<exists>r. select_algo history 0 = Inr r" by (rule exI)
qed

theorem select_algo_single_key_witness:
  "list_all (\<lambda>d. length d = 1) single_key_history \<and>
   (1::int) < int (length single_key_history) \<and>
   select_algo single_key_history 1 = Inl IndexError \<and>
   py_index single_key_history 1 = Inr [(''dints_0'', 20)] \<and>
   py_index (dict_keys [(''dints_0'', 20::nat)]) 1 = Inl IndexError \<and>
   (\<exists>r. select_algo single_key_history 0 = Inr r)"
proof -
  have single: "\<forall>d \<in> set single_key_history. length d = 1"
    by (simp add: single_key_history_def)
  have len: "(1::int) < int (length single_key_history)"
    by (simp add: single_key_history_def)
  have ne: "single_key_history \<noteq> []"
    by (simp add: single_key_history_def)
  have nth: "single_key_history ! nat 1 = [(''dints_0'', 20)]"
    by (simp add: single_key_history_def)
  have every: "list_all (\<lambda>d. length d = 1) single_key_history"
    by (simp add: single_key_history_def)
  from select_algo_single_key [OF single order_refl] len ne every show ?thesis
    unfolding nth by (simp only: simp_thms)
qed

text \<open>
  The claims above speak of indices from 0 on. Python also accepts negative indices,
  counted from the end: on entries with one key each, \<open>-1\<close> takes the last entry and its
  only key.
\<close>

lemma select_algo_last_entry:
  "select_algo single_key_history (- 1) = Inr ([(''swinunetr_0'', 30)], ''swinunetr_0'', 30)"
  by (simp add: select_algo_def py_index_def dict_keys_def dict_getitem_def
        single_key_history_def)

section \<open>Rounding to a float\<close>

subsection \<open>The binary logarithm\<close>

lemma one_less_two: "(1::nat) < 2"
  by simp

lemma floorlog2_upper: "0 < n \<Longrightarrow> n < 2 ^ floorlog 2 n"
  by (rule floorlog_bounds [OF _ one_less_two, THEN conjunct2])

lemma floorlog2_lower: "0 < n \<Longrightarrow> 2 ^ (floorlog 2 n - 1) \<le> n"
  by (rule floorlog_bounds [OF _ one_less_two, THEN conjunct1])

lemma floorlog2_pos: "0 < n \<Longrightarrow> 0 < floorlog 2 n"
  by (simp add: floorlog_def)

lemma ilog2_lower:
  assumes "0 < x"
  shows "2 powi (ilog2 x) \<le> x"
proof (cases "1 \<le> x")
  case True
  define n where "n = nat \<lfloor>x\<rfloor>"
  define k where "k = floorlog 2 n"
  from True have fl: "1 \<le> \<lfloor>x\<rfloor>" by (simp add: le_floor_iff)
  then have n: "0 < n" by (simp add: n_def)
  from n have b: "2 ^ (k - 1) \<le> n"
    unfolding k_def by (rule floorlog2_lower)
  from n have k: "0 < k"
    unfolding k_def by (rule floorlog2_pos)
  from True have "ilog2 x = int (k - 1)"
    using k by (simp add: ilog2_def k_def n_def)
  then have "2 powi (ilog2 x) = (2::rat) ^ (k - 1)" by simp
  also from b have "\<dots> \<le> of_nat n"
    by (metis of_nat_mono of_nat_numeral of_nat_power)
  also from fl have "of_nat n = (of_int \<lfloor>x\<rfloor> :: rat)"
    by (simp add: n_def)
  also have "\<dots> \<le> x" by simp
  finally show ?thesis .
next
  case False
  define y where "y = 1 / x"
  define n where "n = nat (\<lceil>y\<rceil> - 1)"
  define k where "k = floorlog 2 n"
  from False assms have y: "1 < y" by (simp add: y_def)
  then have c: "2 \<le> \<lceil>y\<rceil>" by (simp add: le_ceiling_iff)
  then have n: "0 < n" by (simp add: n_def)
  from n have b: "n < 2 ^ k"
    unfolding k_def by (rule floorlog2_upper)
  from False have il: "ilog2 x = - int k"
    by (simp add: ilog2_def k_def n_def y_def)
  from b have "n + 1 \<le> 2 ^ k" by simp
  then have "(of_nat (n + 1) :: rat) \<le> 2 ^ k"
    by (metis of_nat_mono of_nat_numeral of_nat_power)
  moreover from c have "(of_nat (n + 1) :: rat) = of_int \<lceil>y\<rceil>"
    by (simp add: n_def)
  moreover have "y \<le> of_int \<lceil>y\<rceil>" by simp
  ultimately have "y \<le> 2 ^ k" by linarith
  with assms have "1 / 2 ^ k \<le> x"
    by (simp add: y_def field_simps)
  with il show ?thesis
    by (simp add: power_int_minus_divide)
qed

lemma ilog2_upper:
  assumes "0 < x"
  shows "x < 2 powi (ilog2 x + 1)"
proof (cases "1 \<le> x")
  case True
  define n where "n = nat \<lfloor>x\<rfloor>"
  define k where "k = floorlog 2 n"
  from True have fl: "1 \<le> \<lfloor>x\<rfloor>" by (simp add: le_floor_iff)
  then have n: "0 < n" by (simp add: n_def)
  from n have b: "n < 2 ^ k"
    unfolding k_def by (rule floorlog2_upper)
  from True have "ilog2 x + 1 = int k"
    by (simp add: ilog2_def k_def n_def)
  then have p: "2 powi (ilog2 x + 1) = (2::rat) ^ k" by simp
  from b have "n + 1 \<le> 2 ^ k" by simp
  then have "(of_nat (n + 1) :: rat) \<le> 2 ^ k"
    by (metis of_nat_mono of_nat_numeral of_nat_power)
  moreover from fl have "(of_nat (n + 1) :: rat) = of_int \<lfloor>x\<rfloor> + 1"
    by (simp add: n_def)
  moreover have "x < of_int \<lfloor>x\<rfloor> + 1" by linarith
  ultimately show ?thesis using p by linarith
next
  case False
  define y where "y = 1 / x"
  define n where "n = nat (\<lceil>y\<rceil> - 1)"
  define k where "k = floorlog 2 n"
  from False assms have y: "1 < y" by (simp add: y_def)
  then have c: "2 \<le> \<lceil>y\<rceil>" by (simp add: le_ceiling_iff)
  then have n: "0 < n" by (simp add: n_def)
  from n have b: "2 ^ (k - 1) \<le> n"
    unfolding k_def by (rule floorlog2_lower)
  from n have k: "0 < k"
    unfolding k_def by (rule floorlog2_pos)
  from False have il: "ilog2 x + 1 = - int (k - 1)"
    using k by (simp add: ilog2_def k_def n_def y_def)
  from b have "(2::rat) ^ (k - 1) \<le> of_nat n"
    by (metis of_nat_mono of_nat_numeral of_nat_power)
  moreover from c have "(of_nat n :: rat) = of_int \<lceil>y\<rceil> - 1"
    by (simp add: n_def)
  moreover have "of_int \<lceil>y\<rceil> - 1 < y" by linarith
  ultimately have "(2::rat) ^ (k - 1) < y" by linarith
  with assms have "x < 1 / 2 ^ (k - 1)"
    by (simp add: y_def field_simps)
  with il show ?thesis
    by (simp add: power_int_minus_divide)
qed

subsection \<open>Rounding to an integer\<close>

lemma round_half_even_cases:
  "round_half_even w = \<lfloor>w\<rfloor> \<or> round_half_even w = \<lfloor>w\<rfloor> + 1"
  by (simp add: round_half_even_def Let_def)

lemma round_half_even_error: "\<bar>of_int (round_half_even w) - w\<bar> \<le> 1 / 2"
proof -
  have "of_int \<lfloor>w\<rfloor> \<le> w" "w < of_int \<lfloor>w\<rfloor> + 1" by linarith+
  then show ?thesis
    by (auto simp: round_half_even_def Let_def)
qed

lemma round_half_even_of_int [simp]: "round_half_even (of_int k) = k"
  by (simp add: round_half_even_def)

lemma round_half_even_ge: "of_int k \<le> w \<Longrightarrow> k \<le> round_half_even w"
proof -
  assume "of_int k \<le> w"
  then have "k \<le> \<lfloor>w\<rfloor>" by (simp add: le_floor_iff)
  with round_half_even_cases [of w] show ?thesis by auto
qed

subsection \<open>Error and exactness of the rounding\<close>

lemma two_powi_pos: "0 < (2::rat) powi e"
  by (simp add: zero_less_power_int)

lemma two_powi_less_exp: "(2::rat) powi m < 2 powi n \<Longrightarrow> m < n"
proof (rule ccontr)
  assume less: "(2::rat) powi m < 2 powi n" and "\<not> m < n"
  then have "n \<le> m" by simp
  then have "(2::rat) powi n \<le> 2 powi m"
    by (rule power_int_increasing) simp
  with less show False by simp
qed

lemma ilog2_ge: "0 < x \<Longrightarrow> 2 powi j \<le> x \<Longrightarrow> j \<le> ilog2 x"
proof -
  assume x: "0 < x" and "2 powi j \<le> x"
  with ilog2_upper [OF x] have "(2::rat) powi j < 2 powi (ilog2 x + 1)" by simp
  then have "j < ilog2 x + 1" by (rule two_powi_less_exp)
  then show ?thesis by simp
qed

lemma ilog2_less: "0 < x \<Longrightarrow> x < 2 powi j \<Longrightarrow> ilog2 x < j"
proof -
  assume x: "0 < x" and "x < 2 powi j"
  with ilog2_lower [OF x] have "(2::rat) powi (ilog2 x) < 2 powi j" by simp
  then show ?thesis by (rule two_powi_less_exp)
qed

lemma round_pos_error:
  "\<bar>round_pos x - x\<bar> \<le> 2 powi (ulp_exponent x) / 2"
proof -
  define p :: rat where "p = 2 powi (ulp_exponent x)"
  have p: "0 < p" by (simp add: p_def two_powi_pos)
  have "round_pos x - x = (of_int (round_half_even (x / p)) - x / p) * p"
    using p by (simp add: round_pos_def p_def field_simps)
  then have "\<bar>round_pos x - x\<bar> = \<bar>of_int (round_half_even (x / p)) - x / p\<bar> * p"
    using p by (simp add: abs_mult)
  also have "\<dots> \<le> (1 / 2) * p"
    using p round_half_even_error [of "x / p"] by (intro mult_right_mono) simp_all
  finally show ?thesis by (simp add: p_def)
qed

lemma ulp_exponent_normal:
  assumes "2 powi (- 1022) \<le> x"
  shows "ulp_exponent x = ilog2 x - 52"
proof -
  have "0 < (2::rat) powi (- 1022)" by (rule two_powi_pos)
  with assms have "0 < x" by simp
  from ilog2_ge [OF this assms] show ?thesis
    by (simp add: ulp_exponent_def)
qed

lemma round_pos_rel_error:
  assumes "2 powi (- 1022) \<le> x"
  shows "\<bar>round_pos x - x\<bar> \<le> x / 2 ^ 53"
proof -
  have "0 < (2::rat) powi (- 1022)" by (rule two_powi_pos)
  with assms have x: "0 < x" by simp
  have "2 powi (ulp_exponent x) = (2::rat) powi (ilog2 x) / 2 ^ 52"
    by (simp add: ulp_exponent_normal [OF assms] power_int_diff)
  also have "\<dots> \<le> x / 2 ^ 52"
    using ilog2_lower [OF x] by (simp add: divide_right_mono)
  finally have "2 powi (ulp_exponent x) / 2 \<le> x / 2 ^ 52 / 2"
    by (simp add: divide_right_mono)
  with round_pos_error [of x] show ?thesis by simp
qed

lemma round_pos_exact:
  assumes "x = of_int m * 2 powi j" and "ulp_exponent x \<le> j"
  shows "round_pos x = x"
proof -
  define e where "e = ulp_exponent x"
  from assms(2) have "2 powi j = (2::rat) powi (j - e) * 2 powi e"
    by (simp add: e_def flip: power_int_add)
  moreover from assms(2) have "(2::rat) powi (j - e) = 2 ^ nat (j - e)"
    by (simp add: e_def power_int_def)
  ultimately have split: "x = of_int (m * 2 ^ nat (j - e)) * 2 powi e"
    using assms(1) by simp
  then have "x / 2 powi e = of_int (m * 2 ^ nat (j - e))"
    by (simp add: two_powi_pos [THEN less_imp_neq, symmetric])
  then have "round_half_even (x / 2 powi e) = m * 2 ^ nat (j - e)"
    by (simp only: round_half_even_of_int)
  then have "round_pos x = of_int (m * 2 ^ nat (j - e)) * 2 powi e"
    by (simp add: round_pos_def e_def)
  with split show ?thesis by simp
qed

lemma ulp_exponent_le:
  assumes "0 < x" and "x < 2 powi (j + 53)" and "- 1074 \<le> j"
  shows "ulp_exponent x \<le> j"
  using ilog2_less [OF assms(1,2)] assms(3) by (simp add: ulp_exponent_def)

lemma round_pos_ge_int:
  assumes x: "0 < x" and small: "x < 2 ^ 53" and k: "of_int k \<le> x"
  shows "of_int k \<le> round_pos x"
proof -
  define e where "e = ulp_exponent x"
  from small have "x < 2 powi (0 + 53)" by simp
  with x have e: "e \<le> 0"
    unfolding e_def by (rule ulp_exponent_le) simp
  then have pw: "(2::rat) powi e * 2 ^ nat (- e) = 1"
    by (simp add: power_int_def field_simps flip: power_mult_distrib)
  then have "x / 2 powi e = x * 2 ^ nat (- e)"
    using two_powi_pos [of e] by (simp add: field_simps)
  moreover from k have "of_int k * (2::rat) ^ nat (- e) \<le> x * 2 ^ nat (- e)"
    by (simp add: mult_right_mono)
  ultimately have "of_int (k * 2 ^ nat (- e)) \<le> x / 2 powi e" by simp
  then have "k * 2 ^ nat (- e) \<le> round_half_even (x / 2 powi e)"
    by (rule round_half_even_ge)
  then have "(of_int (k * 2 ^ nat (- e)) :: rat) \<le> of_int (round_half_even (x / 2 powi e))"
    by (simp only: of_int_le_iff)
  then have main: "of_int (k * 2 ^ nat (- e)) * 2 powi e \<le> round_pos x"
    using two_powi_pos [of e] by (simp add: round_pos_def e_def mult_right_mono)
  have "of_int (k * 2 ^ nat (- e)) * 2 powi e = (of_int k :: rat) * (2 powi e * 2 ^ nat (- e))"
    by (simp only: of_int_mult of_int_power of_int_numeral ac_simps)
  also have "\<dots> = of_int k"
    by (simp only: pw mult_1_right)
  finally show ?thesis
    using main by (simp only:)
qed

lemma to_double_pos: "0 < x \<Longrightarrow> to_double x = round_pos x"
  by (simp add: to_double_def)

lemma of_int_less_two_power:
  "k < 2 ^ n \<Longrightarrow> (of_int k :: rat) < 2 ^ n"
proof -
  assume "k < 2 ^ n"
  then have "(of_int k :: rat) < of_int (2 ^ n)"
    by (simp only: of_int_less_iff)
  then show ?thesis by simp
qed

lemma to_double_of_int:
  assumes "0 < k" and "k < 2 ^ 53"
  shows "to_double (of_int k) = of_int k"
proof -
  from assms(1) have x: "(0::rat) < of_int k" by simp
  from of_int_less_two_power [OF assms(2)] have "(of_int k :: rat) < 2 powi (0 + 53)"
    by simp
  with x have x: "(0::rat) < of_int k" and "(of_int k :: rat) < 2 powi (0 + 53)"
    by simp_all
  then have "ulp_exponent (of_int k) \<le> 0"
    by (rule ulp_exponent_le) simp
  with round_pos_exact [of "of_int k" k 0] have "round_pos (of_int k) = of_int k"
    by simp
  with x show ?thesis by (simp add: to_double_pos)
qed

lemma to_double_half:
  assumes "0 < k" and "k < 2 ^ 52"
  shows "to_double (of_int k / 2) = of_int k / 2"
proof -
  from assms(1) have x: "(0::rat) < of_int k / 2" by simp
  from of_int_less_two_power [OF assms(2)] have "(of_int k / 2 :: rat) < 2 powi (- 1 + 53)"
    by simp
  with x have x: "(0::rat) < of_int k / 2" and "(of_int k / 2 :: rat) < 2 powi (- 1 + 53)"
    by simp_all
  then have "ulp_exponent (of_int k / 2) \<le> - 1"
    by (rule ulp_exponent_le) simp
  with round_pos_exact [of "of_int k / 2" k "- 1"] have "round_pos (of_int k / 2) = of_int k / 2"
    by simp
  with x show ?thesis by (simp add: to_double_pos)
qed

lemma not_too_large: "\<bar>x\<bar> < 2 ^ 53 \<Longrightarrow> \<not> too_large x"
proof -
  assume "\<bar>x\<bar> < 2 ^ 53"
  moreover have "(2::rat) ^ 53 \<le> 2 ^ 1024" by (rule power_increasing) simp_all
  ultimately show ?thesis by (simp add: too_large_def)
qed

lemma n_iter_val_exact:
  assumes "0 \<le> n" and "n < 2 ^ 52"
  shows "n_iter_val n = Inr (n div 2)"
proof (cases "n = 0")
  case True
  then show ?thesis
    by (simp add: n_iter_val_def int_truediv_def to_double_def too_large_def py_int_def)
next
  case False
  with assms have pos: "0 < n" by simp
  have fl: "\<lfloor>(of_int n / 2 :: rat)\<rfloor> = n div 2"
    using floor_divide_of_int_eq [of n 2, where ?'a = rat] by simp
  from pos of_int_less_two_power [OF assms(2)] have "\<bar>(of_int n / 2 :: rat)\<bar> < 2 ^ 53"
    by simp
  then have "\<not> too_large (of_int n / 2)" by (rule not_too_large)
  with pos fl show ?thesis
    by (simp add: n_iter_val_def int_truediv_def to_double_half [OF pos assms(2)] py_int_def)
qed

subsection \<open>Two roundings in a row\<close>

text \<open>
  The cell divides twice and rounds after each division. With \<open>P\<close> the next multiple of
  the divisors' product above the numerator, the two relative errors of \<open>2\<^sup>-\<^sup>5\<^sup>3\<close> cannot
  lift a quotient below \<open>P\<close> up to \<open>P\<close> as long as \<open>P \<le> 2\<^sup>5\<^sup>2\<close>.
\<close>

lemma double_rounding_below:
  fixes P :: int
  assumes "P \<le> 2 ^ 52"
  shows "(of_int P - 1) * (1 + 1 / 2 ^ 53) * (1 + 1 / 2 ^ 53) < (of_int P :: rat)"
proof -
  from assms have "(of_int P :: rat) \<le> of_int (2 ^ 52)"
    by (simp only: of_int_le_iff)
  then have "(of_int P :: rat) \<le> 2 ^ 52" by simp
  then show ?thesis by (simp add: algebra_simps)
qed

lemma n_iter_exact:
  assumes e: "0 < num_epoch" and n: "0 < n_data" and b: "0 < images_per_batch" and g: "0 < gpus"
    and bound: "num_epoch * n_data + images_per_batch * gpus \<le> 2 ^ 52"
  shows "n_iter num_epoch images_per_batch n_data gpus
           = Inr (num_epoch * n_data div (images_per_batch * gpus))"
proof -
  define X where "X = num_epoch * n_data"
  define T where "T = images_per_batch * gpus"
  define k where "k = X div T"
  define x :: rat where "x = of_int X / of_int images_per_batch"
  define q where "q = round_pos x"
  define y where "y = q / of_int gpus"
  define r where "r = round_pos y"
  let ?c = "1 + 1 / 2 ^ 53 :: rat"
  from e n have X: "0 < X" by (simp add: X_def)
  from b g have T: "0 < T" by (simp add: T_def)
  from bound have XT: "X + T \<le> 2 ^ 52" by (simp add: X_def T_def)
  from b g have bT: "images_per_batch \<le> T"
    unfolding T_def by (simp add: mult_le_cancel_left1)
  from b g have gT: "gpus \<le> T"
    unfolding T_def by (simp add: mult_le_cancel_right2)
  have b': "(0::rat) < of_int images_per_batch" and g': "(0::rat) < of_int gpus"
    and X': "(0::rat) < of_int X" and T': "(0::rat) < of_int T"
    using b g X T by simp_all
  have small: "(of_int X :: rat) < 2 ^ 52" "(of_int T :: rat) < 2 ^ 52"
              "(of_int images_per_batch :: rat) < 2 ^ 52" "(of_int gpus :: rat) < 2 ^ 52"
    using X T XT bT gT by (auto intro!: of_int_less_two_power)
  have one_b: "(1::rat) \<le> of_int images_per_batch" and one_g: "(1::rat) \<le> of_int gpus"
    and one_X: "(1::rat) \<le> of_int X"
    using b g X by (simp_all flip: of_int_1 [where ?'a = rat] del: of_int_1 add: of_int_le_iff)
  \<comment> \<open>the first quotient\<close>
  have x_pos: "0 < x" using X' b' by (simp add: x_def)
  have x_le: "x \<le> of_int X"
    using one_b X' by (simp add: x_def field_simps)
  have x_ge: "1 / 2 ^ 52 \<le> x"
  proof -
    have "1 / 2 ^ 52 \<le> 1 / (of_int images_per_batch :: rat)"
      using small(3) b' by (simp add: field_simps)
    also have "\<dots> \<le> x"
      using one_X b' by (simp add: x_def divide_right_mono)
    finally show ?thesis .
  qed
  have "2 powi (- 1022) \<le> (1 / 2 ^ 52 :: rat)"
    using power_int_increasing [of "- 1022" "- 52" "2 :: rat"]
    by (simp add: power_int_minus_divide)
  with x_ge have x_normal: "2 powi (- 1022) \<le> x" by simp
  from round_pos_rel_error [OF x_normal] have q_err: "\<bar>q - x\<bar> \<le> x / 2 ^ 53"
    by (simp add: q_def)
  then have "\<bar>q - x\<bar> \<le> x / 9007199254740992" by simp
  then have "q \<le> x + x / 9007199254740992" and q_ge: "x / 2 \<le> q"
    using x_pos by linarith+
  then have "q \<le> x + x / 2 ^ 53" by simp
  moreover have "x + x / 2 ^ 53 = x * ?c" by (simp add: algebra_simps)
  ultimately have q_le: "q \<le> x * ?c" by (simp only:)
  from q_ge x_pos have q_pos: "0 < q" by simp
  from q_le x_le small(1) have q_small: "q < 2 ^ 53" by simp
  from q_pos q_small have "\<not> too_large q"
    by (intro not_too_large) simp
  with b x_pos have first: "int_truediv X images_per_batch = Inr q"
    by (simp add: int_truediv_def x_def [symmetric] to_double_pos q_def)
  \<comment> \<open>the divisor\<close>
  from gT XT X have "gpus < 2 ^ 53" by simp
  with g have d: "to_double (of_int gpus) = of_int gpus"
    by (intro to_double_of_int)
  from g' small(4) have "\<not> too_large (of_int gpus)"
    by (intro not_too_large) simp
  \<comment> \<open>the second quotient\<close>
  have y_pos: "0 < y" using q_pos g' by (simp add: y_def)
  have y_le: "y \<le> q"
    using one_g q_pos by (simp add: y_def field_simps)
  from d \<open>\<not> too_large (of_int gpus)\<close> g' y_pos
  have second: "float_div_int q gpus = Inr r"
    by (simp add: float_div_int_def y_def [symmetric] to_double_pos r_def)
  have y_ge: "1 / 2 ^ 105 \<le> y"
  proof -
    have "1 / 2 ^ 105 \<le> (1 / 2 ^ 53) / (of_int gpus :: rat)"
      using small(4) g' by (simp add: field_simps)
    also have "\<dots> \<le> y"
    proof -
      from x_ge have "1 / 4503599627370496 \<le> x" by simp
      with q_ge have "1 / 9007199254740992 \<le> q" by linarith
      then have "1 / 2 ^ 53 \<le> q" by simp
      with g' show ?thesis
        unfolding y_def by (intro divide_right_mono) simp_all
    qed
    finally show ?thesis .
  qed
  have "2 powi (- 1022) \<le> (1 / 2 ^ 105 :: rat)"
    using power_int_increasing [of "- 1022" "- 105" "2 :: rat"]
    by (simp add: power_int_minus_divide)
  with y_ge have y_normal: "2 powi (- 1022) \<le> y" by simp
  from round_pos_rel_error [OF y_normal] have "\<bar>r - y\<bar> \<le> y / 2 ^ 53"
    by (simp add: r_def)
  then have "\<bar>r - y\<bar> \<le> y / 9007199254740992" by simp
  then have "r \<le> y + y / 9007199254740992" by linarith
  then have "r \<le> y + y / 2 ^ 53" by simp
  moreover have "y + y / 2 ^ 53 = y * ?c" by (simp add: algebra_simps)
  ultimately have r_le: "r \<le> y * ?c" by (simp only:)
  \<comment> \<open>from below\<close>
  have kT: "k * T \<le> X" and Xk: "X < (k + 1) * T"
  proof -
    from T have "X mod T < T" and "0 \<le> X mod T" by simp_all
    moreover have "X = k * T + X mod T" by (simp add: k_def)
    ultimately show "k * T \<le> X" and "X < (k + 1) * T"
      by (simp_all add: algebra_simps)
  qed
  from X T have k0: "0 \<le> k" by (simp add: k_def pos_imp_zdiv_nonneg_iff)
  have "of_int (k * gpus) * of_int images_per_batch = (of_int (k * T) :: rat)"
    by (simp add: T_def)
  also from kT have "\<dots> \<le> of_int X" by (simp only: of_int_le_iff)
  finally have "of_int (k * gpus) \<le> x"
    using b' by (simp add: x_def field_simps)
  with x_pos have "of_int (k * gpus) \<le> q"
    unfolding q_def using x_le small(1) by (intro round_pos_ge_int) simp_all
  then have "of_int k \<le> y"
    using g' by (simp add: y_def field_simps)
  with y_pos have lower: "of_int k \<le> r"
    unfolding r_def using y_le q_small by (intro round_pos_ge_int) simp_all
  \<comment> \<open>from above\<close>
  have "r * of_int T \<le> y * ?c * of_int T"
    using r_le T' by (intro mult_right_mono) simp_all
  also have "y * ?c * of_int T = q * of_int images_per_batch * ?c"
    using g' by (simp add: y_def T_def)
  also have "\<dots> \<le> x * ?c * of_int images_per_batch * ?c"
    using q_le b' by (intro mult_right_mono) simp_all
  also have "x * ?c * of_int images_per_batch * ?c = of_int X * ?c * ?c"
    using b' by (simp add: x_def)
  also have "\<dots> \<le> (of_int ((k + 1) * T) - 1) * ?c * ?c"
  proof -
    from Xk have "X \<le> (k + 1) * T - 1" by simp
    then have "(of_int X :: rat) \<le> of_int ((k + 1) * T - 1)"
      by (simp only: of_int_le_iff)
    then have "(of_int X :: rat) \<le> of_int ((k + 1) * T) - 1" by simp
    then show ?thesis by (intro mult_right_mono) simp_all
  qed
  also have "\<dots> < of_int ((k + 1) * T)"
  proof (rule double_rounding_below)
    from kT XT show "(k + 1) * T \<le> 2 ^ 52" by (simp add: algebra_simps)
  qed
  finally have "r * of_int T < of_int (k + 1) * of_int T" by simp
  with T' have upper: "r < of_int k + 1" by simp
  \<comment> \<open>together\<close>
  from lower k0 have "0 \<le> r" by (simp add: order_trans [of 0 "of_int k" r])
  moreover from lower upper have "\<lfloor>r\<rfloor> = k" by (simp add: floor_unique)
  ultimately have "py_int r = k" by (simp add: py_int_def)
  with first second show ?thesis
    by (simp add: n_iter_def X_def [symmetric] k_def T_def)
qed

lemma floor_numeral_quotient:
  "\<lfloor>numeral a / numeral b :: rat\<rfloor> = numeral a div numeral b"
  using floor_divide_of_int_eq [of "numeral a" "numeral b", where ?'a = rat] by simp

lemma ceiling_numeral_quotient:
  "\<lceil>numeral a / numeral b :: rat\<rceil> = - (- numeral a div numeral b)"
  using ceiling_divide_eq_div [of "numeral a" "numeral b", where ?'a = rat] by simp

lemmas float_eval =
  override_from_def n_iter_def n_iter_val_def int_truediv_def float_div_int_def
  to_double_def round_pos_def ulp_exponent_def ilog2_def round_half_even_def
  too_large_def py_int_def compute_floorlog Let_def
  floor_numeral_quotient ceiling_numeral_quotient

lemma iteration_count_div:
  "iteration_count e n b g = e * n div (b * g)"
proof -
  have "(of_int e * of_int n / of_int b / of_int g :: rat) = of_int (e * n) / of_int (b * g)"
    by simp
  then show ?thesis
    by (simp only: iteration_count_def floor_divide_of_int_eq)
qed

lemma validation_interval_div: "validation_interval n = n div 2"
  using floor_divide_of_int_eq [of n 2, where ?'a = rat]
  by (simp add: validation_interval_def)

subsection \<open>Range\<close>

lemma round_pos_nonneg: "0 < x \<Longrightarrow> 0 \<le> round_pos x"
proof -
  assume "0 < x"
  then have "of_int 0 \<le> x / 2 powi ulp_exponent x"
    using two_powi_pos [of "ulp_exponent x"] by simp
  then have "0 \<le> round_half_even (x / 2 powi ulp_exponent x)"
    by (rule round_half_even_ge)
  then show ?thesis
    using two_powi_pos [of "ulp_exponent x"] by (simp add: round_pos_def)
qed

lemma round_pos_fits:
  assumes "0 < x" and "x \<le> 2 ^ 1023"
  shows "round_pos x < 2 ^ 1024"
proof -
  from assms(2) have "x < 2 powi 1024" by simp
  with assms(1) have "ilog2 x < 1024" by (rule ilog2_less)
  then have "ulp_exponent x \<le> 971" by (simp add: ulp_exponent_def)
  then have "(2::rat) powi ulp_exponent x \<le> 2 powi 971"
    by (rule power_int_increasing) simp
  then have "(2::rat) powi ulp_exponent x / 2 \<le> 2 ^ 970" by simp
  with round_pos_error [of x] have "round_pos x \<le> x + 2 ^ 970" by linarith
  with assms(2) have "round_pos x \<le> 2 ^ 1023 + 2 ^ 970" by linarith
  then show ?thesis by simp
qed

lemma to_double_fits:
  assumes "\<bar>x\<bar> \<le> 2 ^ 1023"
  shows "\<not> too_large (to_double x)"
proof -
  consider "x = 0" | "0 < x" | "x < 0" by linarith
  then show ?thesis
  proof cases
    case 1
    then show ?thesis by (simp add: to_double_def too_large_def)
  next
    case 2
    with assms have "round_pos x < 2 ^ 1024" by (intro round_pos_fits) simp_all
    with round_pos_nonneg [OF 2] 2 show ?thesis
      by (simp add: to_double_def too_large_def)
  next
    case 3
    then have pos: "0 < - x" by simp
    with assms 3 have "round_pos (- x) < 2 ^ 1024" by (intro round_pos_fits) simp_all
    with round_pos_nonneg [OF pos] 3 show ?thesis
      by (simp add: to_double_def too_large_def)
  qed
qed

lemma quotient_le_numerator:
  fixes a b :: int
  assumes "b \<noteq> 0"
  shows "\<bar>(of_int a / of_int b :: rat)\<bar> \<le> \<bar>of_int a\<bar>"
proof -
  from assms have "1 \<le> \<bar>b\<bar>" by simp
  then have "(1::rat) \<le> \<bar>of_int b\<bar>"
    by (metis of_int_1 of_int_abs of_int_le_iff)
  then have "\<bar>of_int a :: rat\<bar> / \<bar>of_int b\<bar> \<le> \<bar>of_int a\<bar> / 1"
    by (intro divide_left_mono) simp_all
  then show ?thesis by simp
qed

lemma float_div_int_zero: "float_div_int q 0 = Inl ZeroDivisionError"
  by (simp add: float_div_int_def to_double_def too_large_def)

lemma to_double_huge: "to_double (2 ^ 1024) = 2 ^ 1024"
proof -
  have x: "(0::rat) < 2 ^ 1024" by simp
  have "(2::rat) ^ 1024 < 2 powi (1024 + 53)" by simp
  with x have "ulp_exponent (2 ^ 1024) \<le> 1024"
    by (rule ulp_exponent_le) simp
  with round_pos_exact [of "2 ^ 1024" 1 1024] have "round_pos (2 ^ 1024) = 2 ^ 1024"
    by simp
  with x show ?thesis by (simp add: to_double_pos)
qed

lemma int_truediv_huge: "int_truediv (2 ^ 1024 * 1) 1 = Inl OverflowError"
proof -
  have q: "(of_int (2 ^ 1024 * 1) / of_int 1 :: rat) = 2 ^ 1024"
    by (simp only: mult_1_right of_int_power of_int_numeral of_int_1 div_by_1)
  have "too_large (to_double (2 ^ 1024))"
    unfolding to_double_huge too_large_def by simp
  then show ?thesis
    by (simp only: int_truediv_def Let_def q one_neq_zero if_True if_False)
qed

subsection \<open>The model on known values\<close>

text \<open>
  The float nearest to one tenth; a tie, which goes to the even significand; and the
  neighbouring odd integer, which goes up.
\<close>

lemma to_double_tenth: "to_double (1 / 10) = 3602879701896397 / 2 ^ 55"
  by (simp add: float_eval)

lemma to_double_tie_down: "to_double (2 ^ 53 + 1) = 2 ^ 53"
  by (simp add: float_eval)

lemma to_double_tie_up: "to_double (2 ^ 53 + 3) = 2 ^ 53 + 4"
  by (simp add: float_eval)

section \<open>The override parameters\<close>

text \<open>
  Claim C1, as amended. For positive epoch count, number of images, batch size and GPU
  count with \<open>epoch_count * total_images + images_per_batch * gpu_count \<le> 2\<^sup>5\<^sup>2\<close>, the cell
  returns, and \<^verbatim>\<open>num_iterations\<close> is the floor of the exact quotient,
  \<^verbatim>\<open>num_iterations_per_validation\<close> the floor of its half, and
  \<^verbatim>\<open>num_warmup_iterations\<close> the same value. For 2 epochs, 24 images, batches of 2 and one
  GPU these are 24 and 12.
\<close>

theorem override_from_floor:
  assumes "0 < epoch_count" and "0 < total_images" and "0 < images_per_batch" and "0 < gpu_count"
    and "epoch_count * total_images + images_per_batch * gpu_count \<le> 2 ^ 52"
  shows "override_from epoch_count images_per_batch total_images gpu_count =
           Inr \<lparr>num_iterations =
                  iteration_count epoch_count total_images images_per_batch gpu_count,
                num_iterations_per_validation =
                  validation_interval
                    (iteration_count epoch_count total_images images_per_batch gpu_count),
                num_images_per_batch = images_per_batch,
                num_epochs = epoch_count,
                num_warmup_iterations =
                  validation_interval
                    (iteration_count epoch_count total_images images_per_batch gpu_count)\<rparr>"
proof -
  define k where "k = epoch_count * total_images div (images_per_batch * gpu_count)"
  from assms have iter: "n_iter epoch_count images_per_batch total_images gpu_count = Inr k"
    unfolding k_def by (rule n_iter_exact)
  from assms(1-4) have X: "0 \<le> epoch_count * total_images" and T: "0 < images_per_batch * gpu_count"
    by simp_all
  then have k0: "0 \<le> k"
    by (simp add: k_def pos_imp_zdiv_nonneg_iff)
  from T have "1 \<le> images_per_batch * gpu_count" by simp
  with X have "k \<le> epoch_count * total_images"
    unfolding k_def by (metis div_by_1 zdiv_mono2 zero_less_one)
  with assms(5) T have "k < 2 ^ 52" by simp
  with k0 have "n_iter_val k = Inr (k div 2)" by (rule n_iter_val_exact)
  with iter show ?thesis
    by (simp add: override_from_def iteration_count_div validation_interval_div k_def)
qed

theorem override_from_floor_witness:
  "override_from 2 2 24 1 =
     Inr \<lparr>num_iterations = 24, num_iterations_per_validation = 12, num_images_per_batch = 2,
          num_epochs = 2, num_warmup_iterations = 12\<rparr>"
proof -
  have "(2::int) * 24 + 2 * 1 \<le> 2 ^ 52" by simp
  with override_from_floor [of 2 24 2 1] show ?thesis
    by (simp add: iteration_count_div validation_interval_div)
qed

text \<open>
  Without the bound the claim fails: the quotients are floats. With \<open>2\<^sup>5\<^sup>3 + 1\<close> epochs,
  one image, batches of one and one GPU the first division rounds to \<open>2\<^sup>5\<^sup>3\<close>, which is
  not the floor of the exact quotient.
\<close>

theorem override_from_floor_counterexample:
  "override_from (2 ^ 53 + 1) 1 1 1 =
     Inr \<lparr>num_iterations = 2 ^ 53, num_iterations_per_validation = 2 ^ 52,
          num_images_per_batch = 1, num_epochs = 2 ^ 53 + 1, num_warmup_iterations = 2 ^ 52\<rparr> \<and>
   iteration_count (2 ^ 53 + 1) 1 1 1 = 2 ^ 53 + 1"
  by (simp add: float_eval iteration_count_div)

text \<open>
  Claim C4, as amended. A batch size of zero raises \<^verbatim>\<open>ZeroDivisionError\<close>. A GPU count of
  zero raises \<^verbatim>\<open>ZeroDivisionError\<close> when the first quotient fits a float, which it does
  whenever \<open>\<bar>num_epoch * n_data\<bar> \<le> 2\<^sup>1\<^sup>0\<^sup>2\<^sup>3\<close>; when the first quotient does not fit, the first
  division raises \<^verbatim>\<open>OverflowError\<close> before the GPU count is looked at.
\<close>

theorem override_from_zero_division:
  "(images_per_batch = 0 \<longrightarrow>
      override_from num_epoch images_per_batch n_data gpus = Inl ZeroDivisionError) \<and>
   (gpus = 0 \<and> \<bar>num_epoch * n_data\<bar> \<le> 2 ^ 1023 \<longrightarrow>
      override_from num_epoch images_per_batch n_data gpus = Inl ZeroDivisionError) \<and>
   (gpus = 0 \<and> images_per_batch \<noteq> 0 \<longrightarrow>
      override_from num_epoch images_per_batch n_data gpus =
        Inl (if too_large (to_double (of_int (num_epoch * n_data) / of_int images_per_batch))
             then OverflowError else ZeroDivisionError))"
proof (intro conjI impI)
  assume "images_per_batch = 0"
  then show "override_from num_epoch images_per_batch n_data gpus = Inl ZeroDivisionError"
    by (simp add: override_from_def n_iter_def int_truediv_def)
next
  assume a: "gpus = 0 \<and> \<bar>num_epoch * n_data\<bar> \<le> 2 ^ 1023"
  show "override_from num_epoch images_per_batch n_data gpus = Inl ZeroDivisionError"
  proof (cases "images_per_batch = 0")
    case True
    then show ?thesis
      by (simp add: override_from_def n_iter_def int_truediv_def)
  next
    case False
    from a have "(of_int \<bar>num_epoch * n_data\<bar> :: rat) \<le> of_int (2 ^ 1023)"
      by (simp only: of_int_le_iff)
    then have "\<bar>of_int (num_epoch * n_data) :: rat\<bar> \<le> 2 ^ 1023" by simp
    with quotient_le_numerator [OF False, of "num_epoch * n_data"]
    have "\<bar>(of_int (num_epoch * n_data) / of_int images_per_batch :: rat)\<bar> \<le> 2 ^ 1023"
      by linarith
    then have "\<not> too_large (to_double (of_int (num_epoch * n_data) / of_int images_per_batch))"
      by (rule to_double_fits)
    with False a show ?thesis
      by (simp add: override_from_def n_iter_def int_truediv_def float_div_int_zero)
  qed
next
  assume "gpus = 0 \<and> images_per_batch \<noteq> 0"
  then show "override_from num_epoch images_per_batch n_data gpus =
        Inl (if too_large (to_double (of_int (num_epoch * n_data) / of_int images_per_batch))
             then OverflowError else ZeroDivisionError)"
    by (simp add: override_from_def n_iter_def int_truediv_def float_div_int_zero)
qed

theorem override_from_zero_division_witness:
  "override_from 2 2 24 0 = Inl ZeroDivisionError \<and>
   override_from 2 0 24 1 = Inl ZeroDivisionError"
proof -
  have "(0::int) = 0 \<and> \<bar>(2::int) * 24\<bar> \<le> 2 ^ 1023" by simp
  with override_from_zero_division [of 2 2 24 0]
  have "override_from 2 2 24 0 = Inl ZeroDivisionError" by (simp only: simp_thms)
  moreover from override_from_zero_division [of 0 2 24 1]
  have "override_from 2 0 24 1 = Inl ZeroDivisionError" by (simp only: simp_thms)
  ultimately show ?thesis by (simp only: simp_thms)
qed


text \<open>
  As stated, for any numerator, the claim fails: with \<open>2\<^sup>1\<^sup>0\<^sup>2\<^sup>4\<close> epochs, one image, batches
  of one and no GPU the error is \<^verbatim>\<open>OverflowError\<close>.
\<close>

theorem override_from_zero_division_counterexample:
  "override_from (2 ^ 1024) 1 1 0 = Inl OverflowError \<and> OverflowError \<noteq> ZeroDivisionError"
  by (simp only: override_from_def n_iter_def int_truediv_huge sum.case py_error.distinct
        simp_thms)








text \<open>
  Claim C6. When the configuration holds \<^verbatim>\<open>multigpu\<close> with the value \<^verbatim>\<open>False\<close> (or any
  value that Python's \<^verbatim>\<open>not\<close> takes for false), the GPU count is 1 whatever the device
  count; when the key is absent or its value is true, it is the device count.
\<close>

theorem num_gpus_flag:
  "(input_cfg ''multigpu'' = Some (PyBool False) \<longrightarrow> num_gpus input_cfg device_count = 1) \<and>
   (\<forall>v. input_cfg ''multigpu'' = Some v \<and> \<not> truthy v \<longrightarrow> num_gpus input_cfg device_count = 1) \<and>
   (input_cfg ''multigpu'' = None \<longrightarrow> num_gpus input_cfg device_count = device_count) \<and>
   (\<forall>v. input_cfg ''multigpu'' = Some v \<and> truthy v \<longrightarrow>
      num_gpus input_cfg device_count = device_count)"
  by (simp add: num_gpus_def)


theorem num_gpus_flag_witness:
  "num_gpus [''multigpu'' \<mapsto> PyBool False] 8 = 1 \<and>
   num_gpus [''multigpu'' \<mapsto> PyBool True] 8 = 8 \<and>
   num_gpus (notebook_input_cfg ''folds.json'' ''/data'') 8 = 8"
proof -
  have off: "[''multigpu'' \<mapsto> PyBool False] ''multigpu'' = Some (PyBool False)"
    by simp
  have on: "[''multigpu'' \<mapsto> PyBool True] ''multigpu'' = Some (PyBool True) \<and> truthy (PyBool True)"
    by simp
  have none: "notebook_input_cfg ''folds.json'' ''/data'' ''multigpu'' = None"
    by (simp add: notebook_input_cfg_def)
  from num_gpus_flag [of "[''multigpu'' \<mapsto> PyBool False]" 8] off
  have "num_gpus [''multigpu'' \<mapsto> PyBool False] 8 = 1" by (simp only: simp_thms)
  moreover from num_gpus_flag [of "[''multigpu'' \<mapsto> PyBool True]" 8] on
  have "num_gpus [''multigpu'' \<mapsto> PyBool True] 8 = 8" by blast
  moreover from num_gpus_flag [of "notebook_input_cfg ''folds.json'' ''/data''" 8] none
  have "num_gpus (notebook_input_cfg ''folds.json'' ''/data'') 8 = 8" by (simp only: simp_thms)
  ultimately show ?thesis by (simp only: simp_thms)
qed

end
